theory Spec2Isabelle
  imports Main "HOL-Library.Word" "HOL-Library.Sublist"
begin

section \<open>JavaScript strings\<close>

text \<open>
  A JavaScript string is a sequence of UTF-16 code units, and \<open>length\<close>,
  \<open>startsWith\<close>, \<open>endsWith\<close>, \<open>split\<close> and the \<open>trim\<close> family all work on
  code units. A line is therefore a list of 16-bit words.
\<close>

type_synonym jschar = "16 word"
type_synonym jsstring = "jschar list"

text \<open>An ASCII literal as a JavaScript string.\<close>

definition lit :: "string \<Rightarrow> jsstring" where
  "lit s = map (\<lambda>c. of_nat (of_char c)) s"

definition NL :: jschar where
  "NL = 0x0A"

text \<open>
  The code units removed by \<open>trim\<close>, \<open>trimStart\<close> and \<open>trimEnd\<close>: ECMAScript's
  WhiteSpace (TAB, VT, FF, ZWNBSP and the Unicode space separators) and
  LineTerminator (LF, CR, LS, PS) productions. All of them lie in the Basic
  Multilingual Plane, so each is a single code unit.
\<close>

definition isWhiteSpace :: "jschar \<Rightarrow> bool" where
  "isWhiteSpace c \<longleftrightarrow> List.member
     [0x0009, 0x000A, 0x000B, 0x000C, 0x000D, 0x0020, 0x00A0, 0x1680,
      0x2000, 0x2001, 0x2002, 0x2003, 0x2004, 0x2005, 0x2006, 0x2007,
      0x2008, 0x2009, 0x200A, 0x2028, 0x2029, 0x202F, 0x205F, 0x3000,
      0xFEFF] c"

definition trimStart :: "jsstring \<Rightarrow> jsstring" where
  "trimStart s = dropWhile isWhiteSpace s"

definition trimEnd :: "jsstring \<Rightarrow> jsstring" where
  "trimEnd s = rev (dropWhile isWhiteSpace (rev s))"

definition trim :: "jsstring \<Rightarrow> jsstring" where
  "trim s = trimStart (trimEnd s)"

definition startsWith :: "jsstring \<Rightarrow> jsstring \<Rightarrow> bool" where
  "startsWith s p \<longleftrightarrow> take (length p) s = p"

definition endsWith :: "jsstring \<Rightarrow> jsstring \<Rightarrow> bool" where
  "endsWith s p \<longleftrightarrow> length p \<le> length s \<and> drop (length s - length p) s = p"

text \<open>\<open>text.split('\n')\<close>: never empty, one more element than there are line feeds.\<close>

fun split :: "jsstring \<Rightarrow> jsstring list" where
  "split [] = [[]]"
| "split (c # cs) =
     (if c = NL then [] # split cs
      else (case split cs of [] \<Rightarrow> [[c]] | l # ls \<Rightarrow> (c # l) # ls))"

text \<open>\<open>lines.join('\n')\<close>: the empty array joins to the empty string.\<close>

fun join :: "jsstring list \<Rightarrow> jsstring" where
  "join [] = []"
| "join [l] = l"
| "join (l # m # ls) = l @ NL # join (m # ls)"

text \<open>
  \<open>xs[i] ?? ''\<close>: an index outside the array reads \<open>undefined\<close>, which the
  nullish coalescing turns into the empty string.
\<close>

definition at :: "jsstring list \<Rightarrow> nat \<Rightarrow> jsstring" where
  "at xs i = (if i < length xs then xs ! i else [])"

text \<open>
  \<open>Array.prototype.slice(start, end)\<close> as ECMAScript defines it: a negative
  argument counts from the end, both are clamped to the array, and an empty
  range gives the empty array.
\<close>

definition sliceArray :: "'a list \<Rightarrow> int \<Rightarrow> int \<Rightarrow> 'a list" where
  "sliceArray xs start end =
     (let len = int (length xs);
          k = (if start < 0 then max (len + start) 0 else min start len);
          final = (if end < 0 then max (len + end) 0 else min end len)
      in take (nat (final - k)) (drop (nat k) xs))"

section \<open>Smart blank line processing\<close>

text \<open>
  One iteration of the \<open>for\<close> loop of \<open>smartCleanBlankLines\<close>, at index \<open>i\<close>
  with the \<open>result\<close> array built so far; every \<open>continue\<close> leaves \<open>result\<close>
  as it is, every \<open>push\<close> appends the line.
\<close>

definition smartBody :: "jsstring list \<Rightarrow> nat \<Rightarrow> jsstring list \<Rightarrow> jsstring list" where
  "smartBody lines i result =
     (let line = at lines i;
          trimmedLine = trim line;
          isBlank = (trimmedLine = [])
      in if \<not> isBlank then result @ [line]
         else
           let prevLine = (if length result > 0 then trim (at result (length result - 1)) else []);
               nextLine = (if i + 1 < length lines then trim (at lines (i + 1)) else [])
           in if endsWith prevLine (lit ''('') \<or> endsWith prevLine (lit ''['')
                   \<or> endsWith prevLine (lit ''{'') then result
              else if startsWith nextLine (lit '')'') \<or> startsWith nextLine (lit '']'')
                   \<or> startsWith nextLine (lit ''}'') then result
              else
                let lastResultLine =
                      (if length result > 0 then trim (at result (length result - 1)) else [])
                in if lastResultLine = [] then result else result @ [line])"

function smartLoop :: "jsstring list \<Rightarrow> nat \<Rightarrow> jsstring list \<Rightarrow> jsstring list" where
  "smartLoop lines i result =
     (if i < length lines then smartLoop lines (i + 1) (smartBody lines i result)
      else result)"
  by pat_completeness auto
termination
  by (relation "measure (\<lambda>(lines, i, result). length lines - i)") auto

definition smartCleanBlankLines :: "jsstring list \<Rightarrow> jsstring list" where
  "smartCleanBlankLines lines = smartLoop lines 0 []"

text \<open>\<open>cleanTrailingWhitespace\<close>: trim every line at its end, then clean the blank lines.\<close>

definition cleanTrailingWhitespace :: "jsstring \<Rightarrow> jsstring" where
  "cleanTrailingWhitespace text =
     (let lines = map trimEnd (split text)
      in join (smartCleanBlankLines lines))"

section \<open>Cleaning a code block\<close>

definition cleanCodeBlock :: "jsstring \<Rightarrow> jsstring" where
  "cleanCodeBlock content =
     (let lines = split content
      in if length lines < 2 then content
         else
           let openingFence = lines ! 0;
               closingFence = lines ! (length lines - 1);
               codeLines = sliceArray lines 1 (int (length lines) - 1);
               cleanedLines = map trimEnd codeLines;
               processedLines = smartCleanBlankLines cleanedLines
           in join ([openingFence] @ processedLines @ [closingFence]))"

section \<open>Locating the code block at the cursor\<close>

record EditorPosition =
  line :: int
  ch :: int

text \<open>What \<open>getCodeBlockAtCursor\<close> reads of the host editor: the cursor and the text.\<close>

record Editor =
  getCursor :: EditorPosition
  getValue :: jsstring

record CodeBlockInfo =
  fromPos :: EditorPosition
  toPos :: EditorPosition
  content :: jsstring

text \<open>
  The \<open>for\<close> loop of \<open>getCodeBlockAtCursor\<close> at index \<open>i\<close>, with the two loop
  variables \<open>inCodeBlock\<close> and \<open>codeBlockStart\<close>. The \<open>return\<close> inside the loop
  is \<open>Some\<close>, the \<open>return null\<close> after it is \<open>None\<close>.
\<close>

function locateLoop ::
  "jsstring list \<Rightarrow> int \<Rightarrow> nat \<Rightarrow> bool \<Rightarrow> int \<Rightarrow> CodeBlockInfo option" where
  "locateLoop lines cursorLine i inCodeBlock codeBlockStart =
     (if i < length lines then
        (let trimmedLine = trimStart (at lines i) in
         if \<not> inCodeBlock \<and> startsWith trimmedLine (lit ''```'') then
           locateLoop lines cursorLine (i + 1) True (int i)
         else if inCodeBlock \<and> startsWith trimmedLine (lit ''```'') then
           (let codeBlockEnd = int i in
            if cursorLine \<ge> codeBlockStart \<and> cursorLine \<le> codeBlockEnd then
              (let fromCh = 0;
                   endLine = at lines (nat codeBlockEnd);
                   toCh = int (length endLine);
                   blockLines = sliceArray lines codeBlockStart (codeBlockEnd + 1);
                   blockContent = join blockLines
               in Some \<lparr>fromPos = \<lparr>line = codeBlockStart, ch = fromCh\<rparr>,
                         toPos = \<lparr>line = codeBlockEnd, ch = toCh\<rparr>,
                         content = blockContent\<rparr>)
            else locateLoop lines cursorLine (i + 1) False (- 1))
         else locateLoop lines cursorLine (i + 1) inCodeBlock codeBlockStart)
      else None)"
  by pat_completeness auto
termination
  by (relation "measure (\<lambda>(lines, cursorLine, i, inCodeBlock, codeBlockStart). length lines - i)")
     auto

definition getCodeBlockAtCursor :: "Editor \<Rightarrow> CodeBlockInfo option" where
  "getCodeBlockAtCursor editor =
     (let cursorLine = line (getCursor editor);
          content = getValue editor;
          lines = split content
      in locateLoop lines cursorLine 0 False (- 1))"

section \<open>Vocabulary of the specification\<close>

text \<open>A blank line: empty once leading and trailing whitespace is stripped.\<close>

definition isBlankLine :: "jsstring \<Rightarrow> bool" where
  "isBlankLine l \<longleftrightarrow> trim l = []"

text \<open>The string ends with \<open>(\<close>, \<open>[\<close> or \<open>{\<close>.\<close>

definition endsWithOpener :: "jsstring \<Rightarrow> bool" where
  "endsWithOpener s \<longleftrightarrow>
     endsWith s (lit ''('') \<or> endsWith s (lit ''['') \<or> endsWith s (lit ''{'')"

text \<open>The string starts with \<open>)\<close>, \<open>]\<close> or \<open>}\<close>.\<close>

definition startsWithCloser :: "jsstring \<Rightarrow> bool" where
  "startsWithCloser s \<longleftrightarrow>
     startsWith s (lit '')'') \<or> startsWith s (lit '']'') \<or> startsWith s (lit ''}'')"

text \<open>
  The two neighbours a blank line is judged by: the trimmed form of the last line
  already appended to the output (the empty string if the output is empty), and the
  trimmed form of the next input line (the empty string if there is none).
\<close>

definition prevEmitted :: "jsstring list \<Rightarrow> jsstring" where
  "prevEmitted result = (if result = [] then [] else trim (last result))"

definition nextInput :: "jsstring list \<Rightarrow> nat \<Rightarrow> jsstring" where
  "nextInput lines i = (if Suc i < length lines then trim (lines ! Suc i) else [])"

text \<open>A fence line: after stripping leading whitespace it starts with three backticks.\<close>

definition isFenceLine :: "jsstring \<Rightarrow> bool" where
  "isFenceLine l \<longleftrightarrow> startsWith (trimStart l) (lit ''```'')"

text \<open>
  The fence pairs of a document, independently of any cursor: the fence lines in
  document order, the first paired with the second, the third with the fourth and
  so on; a last fence line without a partner opens a block that is never closed.
\<close>

definition fenceIndices :: "jsstring list \<Rightarrow> nat list" where
  "fenceIndices lines = filter (\<lambda>i. isFenceLine (lines ! i)) [0..<length lines]"

fun pairUp :: "nat list \<Rightarrow> (nat \<times> nat) list" where
  "pairUp (s # e # rest) = (s, e) # pairUp rest"
| "pairUp _ = []"

definition fencePairs :: "jsstring list \<Rightarrow> (nat \<times> nat) list" where
  "fencePairs lines = pairUp (fenceIndices lines)"

text \<open>The cursor line lies within a pair, bounds included.\<close>

definition encloses :: "int \<Rightarrow> nat \<times> nat \<Rightarrow> bool" where
  "encloses cursorLine p \<longleftrightarrow> int (fst p) \<le> cursorLine \<and> cursorLine \<le> int (snd p)"

text \<open>
  The block span of a fence pair: it starts at character 0 of the opening fence line,
  ends after the last character of the closing fence line, and its text is the lines
  from the one to the other, both included, joined by line feeds.
\<close>

definition blockSpan :: "jsstring list \<Rightarrow> nat \<times> nat \<Rightarrow> CodeBlockInfo" where
  "blockSpan lines p =
     \<lparr>fromPos = \<lparr>line = int (fst p), ch = 0\<rparr>,
      toPos = \<lparr>line = int (snd p), ch = int (length (lines ! snd p))\<rparr>,
      content = join (map ((!) lines) [fst p..<Suc (snd p)])\<rparr>"

text \<open>The document of Scenario E.\<close>

definition scenarioE :: "jsstring list" where
  "scenarioE = [lit ''text'', lit ''```js'', lit ''code('', [], lit '')'', lit ''```'', lit ''more'']"

text \<open>
  Every blank line of an output follows a line that is not blank; in particular the
  first line is not blank.
\<close>

definition blanksFollowText :: "jsstring list \<Rightarrow> bool" where
  "blanksFollowText out \<longleftrightarrow>
     (\<forall>j<length out. isBlankLine (out ! j) \<longrightarrow> 0 < j \<and> \<not> isBlankLine (out ! (j - 1)))"

text \<open>Somewhere a blank line stands directly before a line that starts with a closer.\<close>

fun blankBeforeCloser :: "jsstring list \<Rightarrow> bool" where
  "blankBeforeCloser (l # m # ls) \<longleftrightarrow>
     isBlankLine l \<and> startsWithCloser (trim m) \<or> blankBeforeCloser (m # ls)"
| "blankBeforeCloser _ \<longleftrightarrow> False"

text \<open>Somewhere a blank line stands directly after a line that ends with an opener.\<close>

definition blanksAfterOpener :: "jsstring list \<Rightarrow> bool" where
  "blanksAfterOpener out \<longleftrightarrow>
     (\<exists>j. Suc j < length out \<and> endsWithOpener (trim (out ! j)) \<and> isBlankLine (out ! Suc j))"

text \<open>
  The \<open>result\<close> array when the loop of \<open>smartCleanBlankLines\<close> reaches index \<open>i\<close>:
  the first \<open>i\<close> iterations, from the empty array.
\<close>

primrec resultAt :: "jsstring list \<Rightarrow> nat \<Rightarrow> jsstring list" where
  "resultAt lines 0 = []"
| "resultAt lines (Suc i) = smartBody lines i (resultAt lines i)"

section \<open>The loops, one iteration at a time\<close>

text \<open>
  The loop equations rewrite a loop into itself, so they are applied by hand
  (\<open>subst\<close>), one iteration each.
\<close>

declare smartLoop.simps [simp del]
declare locateLoop.simps [simp del]

lemma smartBody_cases:
  "smartBody lines i result = result \<or> smartBody lines i result = result @ [at lines i]"
  by (simp add: smartBody_def Let_def)

lemma smartBody_char:
  "smartBody lines i result =
     (if \<not> isBlankLine (at lines i) then result @ [at lines i]
      else if endsWithOpener (prevEmitted result) then result
      else if startsWithCloser (nextInput lines i) then result
      else if prevEmitted result = [] then result
      else result @ [at lines i])"
  by (simp add: smartBody_def Let_def isBlankLine_def endsWithOpener_def startsWithCloser_def
      prevEmitted_def nextInput_def at_def last_conv_nth)

text \<open>A property of \<open>result\<close> that every iteration keeps holds when the loop ends.\<close>

lemma smartLoop_invariant:
  "P result \<Longrightarrow> (\<And>r j. P r \<Longrightarrow> P (smartBody lines j r)) \<Longrightarrow> P (smartLoop lines i result)"
proof (induction lines i result rule: smartLoop.induct)
  case (1 lines i result)
  show ?case
  proof (cases "i < length lines")
    case True
    have "P (smartBody lines i result)"
      by (rule "1.prems"(2) [OF "1.prems"(1)])
    then have "P (smartLoop lines (i + 1) (smartBody lines i result))"
      using "1.prems"(2) by (rule "1.IH" [OF True])
    with True show ?thesis by (subst smartLoop.simps) simp
  next
    case False
    with "1.prems"(1) show ?thesis by (subst smartLoop.simps) simp
  qed
qed

section \<open>The output is a subsequence of the input\<close>

lemma smartLoop_subseq:
  "i \<le> length lines \<Longrightarrow> subseq result (take i lines) \<Longrightarrow>
   subseq (smartLoop lines i result) lines"
proof (induction lines i result rule: smartLoop.induct)
  case (1 lines i result)
  show ?case
  proof (cases "i < length lines")
    case True
    have tk: "take (i + 1) lines = take i lines @ [at lines i]"
      using True by (simp add: at_def take_Suc_conv_app_nth)
    have "subseq (smartBody lines i result) (take (i + 1) lines)"
      using smartBody_cases [of lines i result] "1.prems"(2) unfolding tk
      by (auto intro: list_emb_append_mono)
    with "1.IH" [OF True] True
    have "subseq (smartLoop lines (i + 1) (smartBody lines i result)) lines"
      by simp
    with True show ?thesis by (subst smartLoop.simps) simp
  next
    case False
    with "1.prems" show ?thesis by (subst smartLoop.simps) simp
  qed
qed

text \<open>
  C8. \<open>smartCleanBlankLines\<close> is total (its loop is defined with a termination
  proof: the index grows towards the length of the input), its output is a
  subsequence of its input, so the same lines, verbatim, in the same relative order,
  it is never longer than the input, and the empty input gives the empty output.
\<close>

theorem smartCleanBlankLines_subseq:
  "subseq (smartCleanBlankLines lines) lines
   \<and> length (smartCleanBlankLines lines) \<le> length lines
   \<and> smartCleanBlankLines [] = []"
proof -
  have s: "subseq (smartCleanBlankLines lines) lines"
    unfolding smartCleanBlankLines_def by (rule smartLoop_subseq) simp_all
  have e: "smartCleanBlankLines [] = []"
    by (simp add: smartCleanBlankLines_def smartLoop.simps)
  from s e show ?thesis by (simp add: list_emb_length)
qed

section \<open>Blank lines of the output\<close>

lemma blanksFollowText_body:
  assumes "blanksFollowText r"
  shows "blanksFollowText (smartBody lines i r)"
proof (cases "smartBody lines i r = r")
  case True
  with assms show ?thesis by simp
next
  case False
  then have eq: "smartBody lines i r = r @ [at lines i]"
    and ok: "isBlankLine (at lines i) \<Longrightarrow> r \<noteq> [] \<and> \<not> isBlankLine (last r)"
    by (auto simp: smartBody_char prevEmitted_def isBlankLine_def split: if_splits)
  show ?thesis
    unfolding eq blanksFollowText_def
  proof (intro allI impI)
    fix j
    assume j: "j < length (r @ [at lines i])" and b: "isBlankLine ((r @ [at lines i]) ! j)"
    show "0 < j \<and> \<not> isBlankLine ((r @ [at lines i]) ! (j - 1))"
    proof (cases "j < length r")
      case True
      with assms b have "0 < j \<and> \<not> isBlankLine (r ! (j - 1))"
        by (simp add: blanksFollowText_def nth_append)
      moreover from True have "j - 1 < length r" by simp
      ultimately show ?thesis by (simp add: nth_append)
    next
      case False
      with j have jl: "j = length r" by simp
      with b have "isBlankLine (at lines i)" by simp
      from ok [OF this] have ne: "r \<noteq> []" and nb: "\<not> isBlankLine (last r)"
        by simp_all
      from nb last_conv_nth [OF ne] have "\<not> isBlankLine (r ! (length r - 1))"
        by simp
      with ne jl show ?thesis by (simp add: nth_append)
    qed
  qed
qed

lemma blanksFollowText_clean: "blanksFollowText (smartCleanBlankLines lines)"
  unfolding smartCleanBlankLines_def
proof (rule smartLoop_invariant [where P = blanksFollowText])
  show "blanksFollowText []" by (simp add: blanksFollowText_def)
qed (rule blanksFollowText_body)

text \<open>
  C9. The output of \<open>smartCleanBlankLines\<close> never holds two consecutive blank lines,
  and every blank line of the output is the first output line or comes right after a
  line that is not blank: an iteration pushes a blank line only onto an output whose
  last line is not blank.
\<close>

theorem smartCleanBlankLines_no_blank_run:
  "(\<forall>j. Suc j < length (smartCleanBlankLines lines) \<longrightarrow>
        \<not> (isBlankLine (smartCleanBlankLines lines ! j)
           \<and> isBlankLine (smartCleanBlankLines lines ! Suc j)))
   \<and> (\<forall>j<length (smartCleanBlankLines lines).
        isBlankLine (smartCleanBlankLines lines ! j) \<longrightarrow>
        j = 0 \<or> \<not> isBlankLine (smartCleanBlankLines lines ! (j - 1)))
   \<and> (isBlankLine (at lines i) \<and> smartBody lines i result \<noteq> result \<longrightarrow>
        result \<noteq> [] \<and> \<not> isBlankLine (last result))"
proof -
  have "\<forall>j<length (smartCleanBlankLines lines).
          isBlankLine (smartCleanBlankLines lines ! j) \<longrightarrow>
          0 < j \<and> \<not> isBlankLine (smartCleanBlankLines lines ! (j - 1))"
    using blanksFollowText_clean [of lines] by (simp add: blanksFollowText_def)
  then have "(\<forall>j. Suc j < length (smartCleanBlankLines lines) \<longrightarrow>
        \<not> (isBlankLine (smartCleanBlankLines lines ! j)
           \<and> isBlankLine (smartCleanBlankLines lines ! Suc j)))
   \<and> (\<forall>j<length (smartCleanBlankLines lines).
        isBlankLine (smartCleanBlankLines lines ! j) \<longrightarrow>
        j = 0 \<or> \<not> isBlankLine (smartCleanBlankLines lines ! (j - 1)))"
    by (metis Suc_less_eq diff_Suc_1 less_Suc_eq)
  moreover have "isBlankLine (at lines i) \<and> smartBody lines i result \<noteq> result \<longrightarrow>
        result \<noteq> [] \<and> \<not> isBlankLine (last result)"
    by (auto simp: smartBody_char prevEmitted_def isBlankLine_def split: if_splits)
  ultimately show ?thesis by simp
qed

theorem smartCleanBlankLines_no_blank_run_witness:
  "Suc 1 < length (smartCleanBlankLines [lit ''foo'', [], [], lit ''bar''])
   \<and> isBlankLine (smartCleanBlankLines [lit ''foo'', [], [], lit ''bar''] ! 1)
   \<and> \<not> isBlankLine (smartCleanBlankLines [lit ''foo'', [], [], lit ''bar''] ! Suc 1)
   \<and> \<not> isBlankLine (smartCleanBlankLines [lit ''foo'', [], [], lit ''bar''] ! (1 - 1))
   \<and> isBlankLine (at [lit ''foo'', [], [], lit ''bar''] 1)
   \<and> smartBody [lit ''foo'', [], [], lit ''bar''] 1 [lit ''foo''] \<noteq> [lit ''foo'']
   \<and> \<not> isBlankLine (last [lit ''foo''])"
proof -
  let ?in = "[lit ''foo'', [], [], lit ''bar'']"
  let ?out = "smartCleanBlankLines ?in"
  have l: "Suc 1 < length ?out" by code_simp
  have l': "1 < length ?out" by code_simp
  have b: "isBlankLine (?out ! 1)" by code_simp
  have p: "isBlankLine (at ?in 1)" by code_simp
  have q: "smartBody ?in 1 [lit ''foo''] \<noteq> [lit ''foo'']" by code_simp
  note inst = smartCleanBlankLines_no_blank_run [of ?in 1 "[lit ''foo'']"]
  from inst l b have "\<not> isBlankLine (?out ! Suc 1)" by blast
  moreover from inst l' b have "\<not> isBlankLine (?out ! (1 - 1))" by (metis zero_neq_one)
  moreover from inst p q have "\<not> isBlankLine (last [lit ''foo''])" by blast
  ultimately show ?thesis using l b p q by blast
qed

section \<open>The three checks on a blank line\<close>

text \<open>The function is the loop resumed at any index with the array built up to there.\<close>

lemma smartLoop_resultAt:
  "i \<le> length lines \<Longrightarrow> smartLoop lines 0 [] = smartLoop lines i (resultAt lines i)"
proof (induction i)
  case 0
  show ?case by simp
next
  case (Suc i)
  then have "smartLoop lines i (resultAt lines i) = smartLoop lines (Suc i) (resultAt lines (Suc i))"
    by (subst smartLoop.simps) simp
  with Suc show ?case by simp
qed

lemma resultAt_subseq: "i \<le> length lines \<Longrightarrow> subseq (resultAt lines i) (take i lines)"
proof (induction i)
  case 0
  show ?case by simp
next
  case (Suc i)
  then have lt: "i < length lines" and ih: "subseq (resultAt lines i) (take i lines)" by simp_all
  have tk: "take (Suc i) lines = take i lines @ [at lines i]"
    using lt by (simp add: at_def take_Suc_conv_app_nth)
  show ?case
    using smartBody_cases [of lines i "resultAt lines i"] ih unfolding tk
    by (auto intro: list_emb_append_mono)
qed

text \<open>What the loop returns from index \<open>i\<close> on: \<open>result\<close>, then lines taken from the rest of the input.\<close>

lemma smartLoop_tail:
  "i \<le> length lines \<Longrightarrow>
   \<exists>rest. smartLoop lines i result = result @ rest \<and> subseq rest (drop i lines)"
proof (induction "length lines - i" arbitrary: i result)
  case 0
  then show ?case by (subst smartLoop.simps) simp
next
  case (Suc n)
  then have lt: "i < length lines" by simp
  have dr: "drop i lines = at lines i # drop (Suc i) lines"
    using lt by (simp add: at_def Cons_nth_drop_Suc)
  have "\<exists>rest. smartLoop lines (Suc i) (smartBody lines i result) = smartBody lines i result @ rest
              \<and> subseq rest (drop (Suc i) lines)"
    using Suc.hyps(2) lt by (intro Suc.hyps(1)) simp_all
  then obtain rest where eq: "smartLoop lines (Suc i) (smartBody lines i result) = smartBody lines i result @ rest"
    and sub: "subseq rest (drop (Suc i) lines)" by blast
  have loop: "smartLoop lines i result = smartBody lines i result @ rest"
    using lt eq by (subst smartLoop.simps) simp
  from smartBody_cases [of lines i result] show ?case
  proof
    assume "smartBody lines i result = result"
    with loop sub dr show ?thesis by auto
  next
    assume "smartBody lines i result = result @ [at lines i]"
    with loop sub dr show ?thesis by auto
  qed
qed

text \<open>
  C3. At a blank input line the loop applies the opener check to the trimmed last
  emitted line, then the closer check to the trimmed next input line, then the
  run-collapse check (the trimmed last emitted line is empty, which is also the case
  while nothing has been emitted). If one of them fires the line is suppressed: what
  the loop returns is the output built so far followed only by lines taken from the
  input after the blank line. Otherwise the line is emitted unchanged: what the loop
  returns is the output built so far, then this line, then lines taken from the
  input after it. That holds from any array \<open>result\<close>, and for the function itself
  with the array it has built from the lines before the blank line. A blank line
  between an opener and a closer is dropped by one iteration that changes nothing
  else.
\<close>

theorem smartLoop_blank_precedence:
  assumes "i < length lines" and "isBlankLine (lines ! i)"
  shows "smartLoop lines i result =
           smartLoop lines (Suc i)
             (if endsWithOpener (prevEmitted result) then result
              else if startsWithCloser (nextInput lines i) then result
              else if prevEmitted result = [] then result
              else result @ [lines ! i])
         \<and> (endsWithOpener (prevEmitted result) \<and> startsWithCloser (nextInput lines i) \<longrightarrow>
              smartLoop lines i result = smartLoop lines (Suc i) result)
         \<and> (\<exists>rest. smartLoop lines i result =
                (if endsWithOpener (prevEmitted result) then result
                 else if startsWithCloser (nextInput lines i) then result
                 else if prevEmitted result = [] then result
                 else result @ [lines ! i]) @ rest
              \<and> subseq rest (drop (Suc i) lines))
         \<and> subseq (resultAt lines i) (take i lines)
         \<and> (\<exists>rest. smartCleanBlankLines lines =
                (if endsWithOpener (prevEmitted (resultAt lines i)) then resultAt lines i
                 else if startsWithCloser (nextInput lines i) then resultAt lines i
                 else if prevEmitted (resultAt lines i) = [] then resultAt lines i
                 else resultAt lines i @ [lines ! i]) @ rest
              \<and> subseq rest (drop (Suc i) lines))"
proof -
  let ?kept = "\<lambda>r. if endsWithOpener (prevEmitted r) then r
              else if startsWithCloser (nextInput lines i) then r
              else if prevEmitted r = [] then r
              else r @ [lines ! i]"
  have body: "smartBody lines i r = ?kept r" for r
    using assms by (simp add: smartBody_char at_def)
  have step: "smartLoop lines i r = smartLoop lines (Suc i) (?kept r)" for r
    using assms(1) body [of r] by (subst smartLoop.simps) simp
  have tail: "\<exists>rest. smartLoop lines i r = ?kept r @ rest \<and> subseq rest (drop (Suc i) lines)" for r
    using smartLoop_tail [of "Suc i" lines "?kept r"] assms(1) step [of r] by simp
  have whole: "smartCleanBlankLines lines = smartLoop lines i (resultAt lines i)"
    using smartLoop_resultAt [of i lines] assms(1) by (simp add: smartCleanBlankLines_def)
  have pre: "subseq (resultAt lines i) (take i lines)"
    using assms(1) by (intro resultAt_subseq) simp
  show ?thesis
    using step [of result] tail [of result] tail [of "resultAt lines i"] whole pre
    by simp
qed

theorem smartLoop_blank_precedence_witness:
  "1 < length [lit ''foo('', [], lit '')'']
   \<and> isBlankLine ([lit ''foo('', [], lit '')''] ! 1)
   \<and> endsWithOpener (prevEmitted [lit ''foo(''])
   \<and> startsWithCloser (nextInput [lit ''foo('', [], lit '')''] 1)
   \<and> smartLoop [lit ''foo('', [], lit '')''] 1 [lit ''foo('']
       = smartLoop [lit ''foo('', [], lit '')''] (Suc 1) [lit ''foo('']
   \<and> (\<exists>rest. smartCleanBlankLines [lit ''foo('', [], lit '')''] = [lit ''foo(''] @ rest
          \<and> subseq rest (drop (Suc 1) [lit ''foo('', [], lit '')'']))
   \<and> 1 < length [lit ''foo'', [], lit ''bar'']
   \<and> isBlankLine ([lit ''foo'', [], lit ''bar''] ! 1)
   \<and> (\<exists>rest. smartCleanBlankLines [lit ''foo'', [], lit ''bar''] = [lit ''foo'', []] @ rest
          \<and> subseq rest (drop (Suc 1) [lit ''foo'', [], lit ''bar'']))
   \<and> smartCleanBlankLines [lit ''foo('', [], lit '')''] = [lit ''foo('', lit '')'']
   \<and> smartCleanBlankLines [lit ''foo'', [], lit ''bar''] = [lit ''foo'', [], lit ''bar'']"
proof -
  let ?tie = "[lit ''foo('', [], lit '')'']"
  let ?keep = "[lit ''foo'', [], lit ''bar'']"
  have h1: "1 < length ?tie" by simp
  have h2: "isBlankLine (?tie ! 1)" by code_simp
  have h3: "endsWithOpener (prevEmitted [lit ''foo(''])" by code_simp
  have h4: "startsWithCloser (nextInput ?tie 1)" by code_simp
  have r1: "resultAt ?tie 1 = [lit ''foo('']" by code_simp
  have k1: "1 < length ?keep" by simp
  have k2: "isBlankLine (?keep ! 1)" by code_simp
  have r2: "resultAt ?keep 1 = [lit ''foo'']" by code_simp
  have k3: "\<not> endsWithOpener (prevEmitted [lit ''foo''])" by code_simp
  have k4: "\<not> startsWithCloser (nextInput ?keep 1)" by code_simp
  have k5: "prevEmitted [lit ''foo''] \<noteq> []" by code_simp
  have n1: "?keep ! 1 = []" by simp
  from smartLoop_blank_precedence [OF h1 h2, of "[lit ''foo('']"] h3 h4 r1
  have a: "smartLoop ?tie 1 [lit ''foo(''] = smartLoop ?tie (Suc 1) [lit ''foo('']"
    and b: "\<exists>rest. smartCleanBlankLines ?tie = [lit ''foo(''] @ rest \<and> subseq rest (drop (Suc 1) ?tie)"
    by simp_all
  from smartLoop_blank_precedence [OF k1 k2, of "[lit ''foo'']"] k3 k4 k5 r2 n1
  have c: "\<exists>rest. smartCleanBlankLines ?keep = [lit ''foo'', []] @ rest \<and> subseq rest (drop (Suc 1) ?keep)"
    by simp
  have o1: "smartCleanBlankLines ?tie = [lit ''foo('', lit '')'']" by code_simp
  have o2: "smartCleanBlankLines ?keep = [lit ''foo'', [], lit ''bar'']" by code_simp
  from h1 h2 h3 h4 a b k1 k2 c o1 o2 show ?thesis by blast
qed

section \<open>A run of blank lines before a closing bracket\<close>

text \<open>
  The closer check reads the next line of the input, not the next line that will be
  emitted. A blank input line directly before a closer is always dropped:
\<close>

lemma smartBody_blank_before_closer:
  assumes "isBlankLine (at lines i)" and "startsWithCloser (nextInput lines i)"
  shows "smartBody lines i result = result"
  using assms by (simp add: smartBody_char)

lemma blankBeforeCloser_index:
  "blankBeforeCloser out \<longleftrightarrow>
     (\<exists>j. Suc j < length out \<and> isBlankLine (out ! j) \<and> startsWithCloser (trim (out ! Suc j)))"
proof (induction out rule: blankBeforeCloser.induct)
  case (1 l m ls)
  have "(\<exists>j. Suc j < length (l # m # ls) \<and> isBlankLine ((l # m # ls) ! j)
              \<and> startsWithCloser (trim ((l # m # ls) ! Suc j)))
        \<longleftrightarrow> isBlankLine l \<and> startsWithCloser (trim m)
            \<or> (\<exists>j. Suc j < length (m # ls) \<and> isBlankLine ((m # ls) ! j)
              \<and> startsWithCloser (trim ((m # ls) ! Suc j)))"
    (is "(\<exists>j. ?P j) \<longleftrightarrow> ?A \<or> (\<exists>j. ?Q j)")
  proof
    assume "\<exists>j. ?P j"
    then obtain j where j: "?P j" ..
    show "?A \<or> (\<exists>j. ?Q j)"
    proof (cases j)
      case 0
      with j show ?thesis by simp
    next
      case (Suc k)
      with j have "?Q k" by simp
      then show ?thesis by blast
    qed
  next
    assume "?A \<or> (\<exists>j. ?Q j)"
    then show "\<exists>j. ?P j"
    proof
      assume ?A
      then have "?P 0" by simp
      then show ?thesis ..
    next
      assume "\<exists>j. ?Q j"
      then obtain k where "?Q k" ..
      then have "?P (Suc k)" by simp
      then show ?thesis ..
    qed
  qed
  with 1 show ?case by simp
qed simp_all

text \<open>No blank line of the output follows an opener: the opener check reads the output.\<close>

lemma noOpener_body:
  assumes "\<not> blanksAfterOpener r"
  shows "\<not> blanksAfterOpener (smartBody lines i r)"
proof (cases "smartBody lines i r = r")
  case True
  with assms show ?thesis by simp
next
  case False
  then have eq: "smartBody lines i r = r @ [at lines i]"
    and ok: "isBlankLine (at lines i) \<Longrightarrow> r \<noteq> [] \<and> \<not> endsWithOpener (trim (last r))"
    by (auto simp: smartBody_char prevEmitted_def split: if_splits)
  show ?thesis
    unfolding eq blanksAfterOpener_def
  proof
    assume "\<exists>j. Suc j < length (r @ [at lines i]) \<and> endsWithOpener (trim ((r @ [at lines i]) ! j))
                 \<and> isBlankLine ((r @ [at lines i]) ! Suc j)"
    then obtain j where j: "Suc j < length (r @ [at lines i])"
      and o: "endsWithOpener (trim ((r @ [at lines i]) ! j))"
      and b: "isBlankLine ((r @ [at lines i]) ! Suc j)" by blast
    show False
    proof (cases "Suc j < length r")
      case True
      with o b have "endsWithOpener (trim (r ! j)) \<and> isBlankLine (r ! Suc j)"
        by (simp add: nth_append)
      with True assms show False by (auto simp: blanksAfterOpener_def)
    next
      case False
      with j have jl: "Suc j = length r" by simp
      with b have "isBlankLine (at lines i)" by (simp add: nth_append)
      from ok [OF this] have ne: "r \<noteq> []" and nb: "\<not> endsWithOpener (trim (last r))"
        by simp_all
      from jl have "last r = r ! j" using ne by (simp add: last_conv_nth flip: jl)
      with nb o jl show False by (simp add: nth_append)
    qed
  qed
qed

lemma noOpener_clean: "\<not> blanksAfterOpener (smartCleanBlankLines lines)"
  unfolding smartCleanBlankLines_def
proof (rule smartLoop_invariant [where P = "\<lambda>r. \<not> blanksAfterOpener r"])
  show "\<not> blanksAfterOpener []" by (simp add: blanksAfterOpener_def)
qed (rule noOpener_body)

text \<open>
  A sequence that the loop could have produced is left as it is by another pass
  exactly when no blank line in it stands before a closer.
\<close>

lemma smartLoop_fixed:
  assumes "blanksFollowText R" and "\<not> blanksAfterOpener R" and "\<not> blankBeforeCloser R"
    and "i \<le> length R"
  shows "smartLoop R i (take i R) = R"
  using assms(4)
proof (induction "length R - i" arbitrary: i)
  case 0
  then show ?case by (subst smartLoop.simps) simp
next
  case (Suc n)
  then have lt: "i < length R" by simp
  have body: "smartBody R i (take i R) = take (Suc i) R"
  proof (cases "isBlankLine (R ! i)")
    case False
    with lt show ?thesis
      by (simp add: smartBody_char at_def take_Suc_conv_app_nth)
  next
    case True
    with assms(1) lt have pos: "0 < i" and prev: "\<not> isBlankLine (R ! (i - 1))"
      by (auto simp: blanksFollowText_def)
    from pos lt have ne: "take i R \<noteq> []"
      by auto
    from pos lt have "length (take i R) - 1 = i - 1"
      by simp
    with last_conv_nth [OF ne] pos have lst: "last (take i R) = R ! (i - 1)"
      by simp
    from pos have si: "Suc (i - 1) = i" by simp
    have "\<not> endsWithOpener (trim (R ! (i - 1)))"
      using assms(2) True lt si unfolding blanksAfterOpener_def by (metis)
    moreover have "\<not> startsWithCloser (nextInput R i)"
    proof (cases "Suc i < length R")
      case False
      then show ?thesis
        by (simp add: nextInput_def startsWithCloser_def startsWith_def lit_def)
    next
      case hasNext: True
      with assms(3) True show ?thesis
        unfolding blankBeforeCloser_index nextInput_def by auto
    qed
    ultimately show ?thesis
      using True prev lt lst ne
      by (simp add: smartBody_char at_def prevEmitted_def isBlankLine_def take_Suc_conv_app_nth)
  qed
  have "smartLoop R i (take i R) = smartLoop R (Suc i) (take (Suc i) R)"
    using lt body by (subst smartLoop.simps) simp
  also have "\<dots> = R"
    using Suc.hyps(2) lt by (intro Suc.hyps(1)) simp_all
  finally show ?case .
qed

lemma length_smartLoop:
  "length (smartLoop lines i r) \<le> length r + (length lines - i)"
proof (induction "length lines - i" arbitrary: i r)
  case 0
  then show ?case by (subst smartLoop.simps) simp
next
  case (Suc n)
  then have lt: "i < length lines" by simp
  have "length (smartLoop lines (Suc i) (smartBody lines i r))
          \<le> length (smartBody lines i r) + (length lines - Suc i)"
    using Suc.hyps(2) by (intro Suc.hyps(1)) simp
  moreover have "length (smartBody lines i r) \<le> Suc (length r)"
    using smartBody_cases [of lines i r] by auto
  ultimately show ?case
    using lt by (subst smartLoop.simps) simp
qed

lemma smartLoop_drops:
  assumes "i \<le> j" and "Suc j < length lines"
    and "isBlankLine (lines ! j)" and "startsWithCloser (trim (lines ! Suc j))"
  shows "length (smartLoop lines i r) < length r + (length lines - i)"
  using assms(1)
proof (induction "j - i" arbitrary: i r)
  case 0
  then have ij: "i = j" by simp
  have "smartBody lines j r = r"
    using assms(2-4) by (intro smartBody_blank_before_closer) (simp_all add: at_def nextInput_def)
  then have "smartLoop lines i r = smartLoop lines (Suc j) r"
    using ij assms(2) by (subst smartLoop.simps) simp
  with length_smartLoop [of lines "Suc j" r] ij assms(2) show ?case by simp
next
  case (Suc n)
  then have lt: "i < j" by simp
  with assms(2) have il: "i < length lines" by simp
  have "length (smartLoop lines (Suc i) (smartBody lines i r))
          < length (smartBody lines i r) + (length lines - Suc i)"
    using Suc.hyps(2) lt by (intro Suc.hyps(1)) simp_all
  moreover have "length (smartBody lines i r) \<le> Suc (length r)"
    using smartBody_cases [of lines i r] by auto
  ultimately show ?case
    using il by (subst smartLoop.simps) simp
qed

lemma smartCleanBlankLines_fixed_iff:
  assumes "blanksFollowText R" and "\<not> blanksAfterOpener R"
  shows "smartCleanBlankLines R = R \<longleftrightarrow> \<not> blankBeforeCloser R"
proof
  assume fp: "smartCleanBlankLines R = R"
  show "\<not> blankBeforeCloser R"
  proof
    assume "blankBeforeCloser R"
    then obtain j where j: "Suc j < length R" "isBlankLine (R ! j)"
      "startsWithCloser (trim (R ! Suc j))"
      by (auto simp: blankBeforeCloser_index)
    from smartLoop_drops [of 0 j R "[]"] j have "length (smartLoop R 0 []) < length R"
      by simp
    with fp show False by (simp add: smartCleanBlankLines_def)
  qed
next
  assume "\<not> blankBeforeCloser R"
  with assms smartLoop_fixed [of R 0] show "smartCleanBlankLines R = R"
    by (simp add: smartCleanBlankLines_def)
qed

text \<open>
  So a second pass changes the output of the first exactly when the first left a
  blank line before a closer.
\<close>

lemma smartCleanBlankLines_idempotent_iff:
  "smartCleanBlankLines (smartCleanBlankLines lines) = smartCleanBlankLines lines
     \<longleftrightarrow> \<not> blankBeforeCloser (smartCleanBlankLines lines)"
  by (rule smartCleanBlankLines_fixed_iff) (rule blanksFollowText_clean noOpener_clean)+

text \<open>
  C2. No blank line of the output should stand directly before a line that starts
  with a closer. The code breaks this on a run of blank lines before a closer: the
  first blank line of the run is followed by a blank line in the input, so it is
  emitted, and in the output it stands directly before the closer. On \<open>foo\<close>, two
  blank lines, \<open>)\<close> the output is \<open>foo\<close>, one blank line, \<open>)\<close>.
\<close>

theorem smartCleanBlankLines_blank_before_closer:
  "smartCleanBlankLines [lit ''foo'', [], [], lit '')''] = [lit ''foo'', [], lit '')'']
   \<and> isBlankLine (smartCleanBlankLines [lit ''foo'', [], [], lit '')''] ! 1)
   \<and> startsWithCloser (trim (smartCleanBlankLines [lit ''foo'', [], [], lit '')''] ! 2))"
  by code_simp

text \<open>
  C1. Cleaning should be idempotent. The code breaks this on the same input: a
  second pass drops the blank line that the first pass left before the closer, so
  cleaning the output again changes it.
\<close>

theorem smartCleanBlankLines_second_pass:
  "smartCleanBlankLines (smartCleanBlankLines [lit ''foo'', [], [], lit '')''])
     = [lit ''foo'', lit '')'']
   \<and> smartCleanBlankLines (smartCleanBlankLines [lit ''foo'', [], [], lit '')''])
     \<noteq> smartCleanBlankLines [lit ''foo'', [], [], lit '')'']"
  by code_simp

section \<open>Cleaning a selection\<close>

text \<open>
  C6. Scenario D: \<open>cleanTrailingWhitespace("line1   \nline2\t\n")\<close> is
  \<open>"line1\nline2\n"\<close>; the empty last line that the final line feed produces is kept.
\<close>

theorem cleanTrailingWhitespace_scenario_D:
  "cleanTrailingWhitespace (lit ''line1   '' @ [NL] @ lit ''line2'' @ [0x09, NL])
     = lit ''line1'' @ [NL] @ lit ''line2'' @ [NL]"
  by code_simp

section \<open>Splitting and joining\<close>

lemma split_nonempty: "split s \<noteq> []"
  by (induction s) (auto split: list.splits)

lemma length_split: "length (split s) = Suc (length (filter (\<lambda>c. c = NL) s))"
  using split_nonempty by (induction s) (auto split: list.splits)

lemma split_one_line: "length (split s) < 2 \<longleftrightarrow> NL \<notin> set s"
  by (auto simp: length_split filter_empty_conv)

lemma split_no_NL: "l \<in> set (split s) \<Longrightarrow> NL \<notin> set l"
proof (induction s arbitrary: l)
  case Nil
  then show ?case by simp
next
  case (Cons c cs)
  then show ?case
    by (cases "split cs") (auto split: if_splits)
qed

lemma split_append_NL: "NL \<notin> set l \<Longrightarrow> split (l @ NL # rest) = l # split rest"
  by (induction l) auto

lemma split_line: "NL \<notin> set l \<Longrightarrow> split l = [l]"
  by (induction l) auto

lemma split_join:
  "xs \<noteq> [] \<Longrightarrow> \<forall>x\<in>set xs. NL \<notin> set x \<Longrightarrow> split (join xs) = xs"
  by (induction xs rule: join.induct) (simp_all add: split_line split_append_NL)

section \<open>Cleaning a code block\<close>

text \<open>
  C7. A block text splits into fewer than two lines exactly when it holds no line
  feed, and \<open>cleanCodeBlock\<close> returns such a text as it is.
\<close>

theorem cleanCodeBlock_single_line:
  "(length (split blockText) < 2 \<longleftrightarrow> NL \<notin> set blockText)
   \<and> (length (split blockText) < 2 \<longrightarrow> cleanCodeBlock blockText = blockText)"
  by (simp add: split_one_line cleanCodeBlock_def)

theorem cleanCodeBlock_single_line_witness:
  "length (split (lit ''```js  '')) < 2 \<and> cleanCodeBlock (lit ''```js  '') = lit ''```js  ''"
proof -
  have h: "length (split (lit ''```js  '')) < 2" by code_simp
  with cleanCodeBlock_single_line [of "lit ''```js  ''"] show ?thesis by simp
qed

text \<open>Trimming and cleaning bring no line feed into a line.\<close>

lemma set_trimEnd: "set (trimEnd l) \<subseteq> set l"
  using set_dropWhileD [of _ isWhiteSpace "rev l"] by (auto simp: trimEnd_def)

lemma set_slice: "set (sliceArray xs a b) \<subseteq> set xs"
  unfolding sliceArray_def Let_def
  by (meson set_take_subset set_drop_subset subset_trans)

lemma set_smartCleanBlankLines: "set (smartCleanBlankLines lines) \<subseteq> set lines"
  using smartLoop_subseq [of 0 lines "[]"] 
  by (auto simp: smartCleanBlankLines_def dest: list_emb_set)

text \<open>The lines of a cleaned block: the two fences around the cleaned interior.\<close>

lemma cleanCodeBlock_lines:
  assumes "2 \<le> length (split blockText)"
  shows "split (cleanCodeBlock blockText) =
           [hd (split blockText)]
           @ smartCleanBlankLines (map trimEnd (butlast (tl (split blockText))))
           @ [last (split blockText)]"
proof -
  let ?ls = "split blockText"
  let ?mid = "smartCleanBlankLines (map trimEnd (sliceArray ?ls 1 (int (length ?ls) - 1)))"
  have ne: "?ls \<noteq> []" using assms by auto
  have n: "nat (int (length ?ls) - 2) = length ?ls - 2"
    by linarith
  have sl: "sliceArray ?ls 1 (int (length ?ls) - 1) = butlast (tl ?ls)"
    using assms n by (simp add: sliceArray_def Let_def butlast_conv_take drop_Suc numeral_2_eq_2)
  have h: "?ls ! 0 = hd ?ls" and l: "?ls ! (length ?ls - 1) = last ?ls"
    using ne by (simp_all add: hd_conv_nth last_conv_nth)
  have c: "cleanCodeBlock blockText = join ([hd ?ls] @ ?mid @ [last ?ls])"
    using assms h l by (simp add: cleanCodeBlock_def Let_def)
  have "\<forall>x\<in>set ([hd ?ls] @ ?mid @ [last ?ls]). NL \<notin> set x"
  proof
    fix x assume "x \<in> set ([hd ?ls] @ ?mid @ [last ?ls])"
    then consider "x = hd ?ls" | "x = last ?ls" | "x \<in> set ?mid" by auto
    then show "NL \<notin> set x"
    proof cases
      case 1 with ne show ?thesis by (simp add: split_no_NL [OF hd_in_set])
    next
      case 2 with ne show ?thesis by (simp add: split_no_NL [OF last_in_set])
    next
      case 3
      then have "x \<in> set (map trimEnd (sliceArray ?ls 1 (int (length ?ls) - 1)))"
        using set_smartCleanBlankLines by blast
      then obtain y where y: "y \<in> set (sliceArray ?ls 1 (int (length ?ls) - 1))" and x: "x = trimEnd y"
        by auto
      from y have "y \<in> set ?ls"
        by (rule subsetD [OF set_slice])
      then have "NL \<notin> set y"
        by (rule split_no_NL)
      with x show ?thesis
        using set_trimEnd by blast
    qed
  qed
  then have "split (join ([hd ?ls] @ ?mid @ [last ?ls])) = [hd ?ls] @ ?mid @ [last ?ls]"
    by (intro split_join) simp_all
  with c sl show ?thesis by simp
qed

text \<open>
  C5. When the block text has at least two lines, the first and the last line of
  \<open>cleanCodeBlock\<close>'s output are the first and the last line of the block text,
  code unit for code unit; only the lines between them are trimmed and cleaned.
\<close>

theorem cleanCodeBlock_fences:
  assumes "2 \<le> length (split blockText)"
  shows "hd (split (cleanCodeBlock blockText)) = hd (split blockText)
         \<and> last (split (cleanCodeBlock blockText)) = last (split blockText)
         \<and> 2 \<le> length (split (cleanCodeBlock blockText))"
  by (simp add: cleanCodeBlock_lines [OF assms])


theorem cleanCodeBlock_fences_witness:
  "2 \<le> length (split (lit ''```js  '' @ [NL] @ lit ''f(  '' @ [NL, NL] @ lit '')'' @ [NL] @ lit '' ``` ''))
   \<and> hd (split (cleanCodeBlock (lit ''```js  '' @ [NL] @ lit ''f(  '' @ [NL, NL] @ lit '')'' @ [NL] @ lit '' ``` ''))) = lit ''```js  ''
   \<and> last (split (cleanCodeBlock (lit ''```js  '' @ [NL] @ lit ''f(  '' @ [NL, NL] @ lit '')'' @ [NL] @ lit '' ``` ''))) = lit '' ``` ''"
proof -
  let ?b = "lit ''```js  '' @ [NL] @ lit ''f(  '' @ [NL, NL] @ lit '')'' @ [NL] @ lit '' ``` ''"
  have h: "2 \<le> length (split ?b)" by code_simp
  have f: "hd (split ?b) = lit ''```js  ''" by code_simp
  have l: "last (split ?b) = lit '' ``` ''" by code_simp
  from cleanCodeBlock_fences [OF h] h f l show ?thesis by simp
qed

section \<open>The code block at the cursor\<close>

lemma take_drop_nth_upt: "e \<le> length xs \<Longrightarrow> take (e - s) (drop s xs) = map ((!) xs) [s..<e]"
  by (rule nth_equalityI) auto

lemma sliceArray_range:
  assumes "s \<le> e" and "e < length xs"
  shows "sliceArray xs (int s) (int e + 1) = map ((!) xs) [s..<Suc e]"
proof -
  have "nat (int e + 1 - int s) = Suc e - s"
    using assms by linarith
  then have "sliceArray xs (int s) (int e + 1) = take (Suc e - s) (drop s xs)"
    using assms by (simp add: sliceArray_def Let_def)
  also have "\<dots> = map ((!) xs) [s..<Suc e]"
    using assms by (intro take_drop_nth_upt) simp
  finally show ?thesis .
qed

text \<open>
  The scan from index \<open>i\<close> returns the span of the first pair that encloses the
  cursor line, among the pairs made of the fence lines from \<open>i\<close> on, after the
  opening fence that is still unmatched when the scan is inside a block.
\<close>

lemma locateLoop_char:
  assumes "i \<le> length lines" and "inB \<longrightarrow> (\<exists>s. st = int s \<and> s < i)"
  shows "locateLoop lines c i inB st =
           map_option (blockSpan lines)
             (find (encloses c)
                (pairUp ((if inB then [nat st] else [])
                         @ filter (\<lambda>k. isFenceLine (lines ! k)) [i..<length lines])))"
  using assms
proof (induction "length lines - i" arbitrary: i inB st)
  case 0
  then have "i = length lines" by simp
  then show ?case by (subst locateLoop.simps) simp
next
  case (Suc n)
  then have lt: "i < length lines" by simp
  let ?F = "\<lambda>k. isFenceLine (lines ! k)"
  have up: "[i..<length lines] = i # [Suc i..<length lines]"
    using lt by (simp add: upt_conv_Cons)
  have n: "n = length lines - Suc i" using Suc.hyps(2) by simp
  have le: "Suc i \<le> length lines" using lt by simp
  have fence: "startsWith (trimStart (at lines i)) (lit ''```'') = ?F i"
    using lt by (simp add: isFenceLine_def at_def)
  show ?case
  proof (cases "?F i")
    case False
    have "locateLoop lines c i inB st = locateLoop lines c (Suc i) inB st"
      using lt False fence by (subst locateLoop.simps) (simp add: Let_def)
    also have "\<dots> = map_option (blockSpan lines)
             (find (encloses c)
                (pairUp ((if inB then [nat st] else [])
                         @ filter ?F [Suc i..<length lines])))"
      using Suc.prems(2) by (intro Suc.hyps(1) [OF n le]) auto
    finally show ?thesis using False by (simp add: up)
  next
    case True
    show ?thesis
    proof (cases inB)
      case False
      have "locateLoop lines c i inB st = locateLoop lines c (Suc i) True (int i)"
        using lt True False fence by (subst locateLoop.simps) (simp add: Let_def)
      also have "\<dots> = map_option (blockSpan lines)
             (find (encloses c)
                (pairUp ((if True then [nat (int i)] else [])
                         @ filter ?F [Suc i..<length lines])))"
        by (intro Suc.hyps(1) [OF n le]) auto
      finally show ?thesis using True False by (simp add: up)
    next
      case inside: True
      with Suc.prems(2) obtain s where st: "st = int s" and s: "s < i" by auto
      show ?thesis
      proof (cases "encloses c (s, i)")
        case True
        have "locateLoop lines c i inB st = Some (blockSpan lines (s, i))"
          using lt \<open>?F i\<close> inside fence True st s
          by (subst locateLoop.simps)
             (simp add: Let_def encloses_def blockSpan_def at_def sliceArray_range)
        then show ?thesis using \<open>?F i\<close> inside True st by (simp add: up)
      next
        case False
        have "locateLoop lines c i inB st = locateLoop lines c (Suc i) False (- 1)"
          using lt \<open>?F i\<close> inside fence False st
          by (subst locateLoop.simps) (auto simp add: Let_def encloses_def)
        also have "\<dots> = map_option (blockSpan lines)
             (find (encloses c)
                (pairUp ((if False then [nat (- 1)] else [])
                         @ filter ?F [Suc i..<length lines])))"
          by (intro Suc.hyps(1) [OF n le]) auto
        finally show ?thesis using \<open>?F i\<close> inside False st by (simp add: up)
      qed
    qed
  qed
qed

lemma getCodeBlockAtCursor_char:
  "getCodeBlockAtCursor editor =
     map_option (blockSpan (split (getValue editor)))
       (find (encloses (line (getCursor editor))) (fencePairs (split (getValue editor))))"
  by (simp add: getCodeBlockAtCursor_def Let_def locateLoop_char fencePairs_def fenceIndices_def)

text \<open>Fence pairs follow one another without overlap, so at most one encloses a line.\<close>

lemma pairUp_ordered:
  assumes "sorted_wrt (<) xs"
  shows "sorted_wrt (\<lambda>p q. snd p < fst q) (pairUp xs)
         \<and> (\<forall>p\<in>set (pairUp xs). fst p < snd p \<and> fst p \<in> set xs \<and> snd p \<in> set xs)"
  using assms
proof (induction xs rule: pairUp.induct)
  case (1 s e rest)
  then have ih: "sorted_wrt (\<lambda>p q. snd p < fst q) (pairUp rest)"
    and mem: "\<forall>p\<in>set (pairUp rest). fst p < snd p \<and> fst p \<in> set rest \<and> snd p \<in> set rest"
    and lt: "s < e" and above: "\<forall>x\<in>set rest. e < x"
    by auto
  from mem above have "\<forall>q\<in>set (pairUp rest). e < fst q" by blast
  with ih mem lt show ?case by auto
qed simp_all

lemma pairUp_unterminated:
  assumes "sorted_wrt (<) xs" and "odd (length xs)"
  shows "\<forall>p\<in>set (pairUp xs). snd p < last xs"
  using assms
proof (induction xs rule: pairUp.induct)
  case (1 s e rest)
  then have ne: "rest \<noteq> []" and above: "\<forall>x\<in>set rest. e < x"
    and ih: "\<forall>p\<in>set (pairUp rest). snd p < last rest"
    by auto
  from ne above have "e < last rest" by simp
  with ih ne show ?case by simp
qed simp_all

lemma find_disjoint:
  assumes "sorted_wrt R ps" and "\<And>p q. R p q \<Longrightarrow> \<not> (P p \<and> P q)"
    and "p \<in> set ps" and "P p"
  shows "find P ps = Some p"
  using assms(1,3)
proof (induction ps)
  case Nil
  then show ?case by simp
next
  case (Cons q qs)
  show ?case
  proof (cases "p = q")
    case True
    with assms(4) show ?thesis by simp
  next
    case False
    with Cons.prems have "p \<in> set qs" and "R q p" by auto
    with assms(2,4) have "\<not> P q" by blast
    with Cons \<open>p \<in> set qs\<close> show ?thesis by simp
  qed
qed

lemma fenceIndices_sorted: "sorted_wrt (<) (fenceIndices lines)"
  by (simp add: fenceIndices_def sorted_wrt_filter)

lemma fenceIndices_member:
  "k \<in> set (fenceIndices lines) \<longleftrightarrow> k < length lines \<and> isFenceLine (lines ! k)"
  by (auto simp: fenceIndices_def)

lemma fencePairs_find:
  assumes "p \<in> set (fencePairs lines)" and "encloses c p"
  shows "find (encloses c) (fencePairs lines) = Some p"
proof (rule find_disjoint [where R = "\<lambda>p q. snd p < fst q"])
  show "sorted_wrt (\<lambda>p q. snd p < fst q) (fencePairs lines)"
    using pairUp_ordered [OF fenceIndices_sorted] by (simp add: fencePairs_def)
  show "\<not> (encloses c p \<and> encloses c q)" if "snd p < fst q" for p q
    using that by (auto simp: encloses_def)
qed (use assms in simp_all)

text \<open>
  C4. When the scan pairs an opening fence at line \<open>s\<close> with a closing fence at
  line \<open>e\<close> and the cursor line lies between them, bounds included,
  \<open>getCodeBlockAtCursor\<close> returns the span of that block: from line \<open>s\<close> to line
  \<open>e\<close>, with the text of exactly these lines. When no fence pair encloses the
  cursor line it returns null; that is so in particular for a cursor at or below an
  opening fence that no later fence closes.
\<close>

theorem getCodeBlockAtCursor_containment:
  assumes "lines = split (getValue editor)" and "cursorLine = line (getCursor editor)"
  shows "((s, e) \<in> set (fencePairs lines) \<and> int s \<le> cursorLine \<and> cursorLine \<le> int e \<longrightarrow>
            (\<exists>b. getCodeBlockAtCursor editor = Some b
                 \<and> line (fromPos b) = int s \<and> line (toPos b) = int e
                 \<and> content b = join (map ((!) lines) [s..<Suc e])))
         \<and> ((\<forall>p\<in>set (fencePairs lines). \<not> encloses cursorLine p) \<longrightarrow>
              getCodeBlockAtCursor editor = None)
         \<and> (odd (length (fenceIndices lines)) \<and> int (last (fenceIndices lines)) \<le> cursorLine \<longrightarrow>
              getCodeBlockAtCursor editor = None)"
proof (intro conjI impI)
  assume a: "(s, e) \<in> set (fencePairs lines) \<and> int s \<le> cursorLine \<and> cursorLine \<le> int e"
  then have "find (encloses cursorLine) (fencePairs lines) = Some (s, e)"
    by (intro fencePairs_find) (simp_all add: encloses_def)
  then have "getCodeBlockAtCursor editor = Some (blockSpan lines (s, e))"
    using assms by (simp add: getCodeBlockAtCursor_char)
  then show "\<exists>b. getCodeBlockAtCursor editor = Some b
                 \<and> line (fromPos b) = int s \<and> line (toPos b) = int e
                 \<and> content b = join (map ((!) lines) [s..<Suc e])"
    by (simp add: blockSpan_def)
next
  assume "\<forall>p\<in>set (fencePairs lines). \<not> encloses cursorLine p"
  then have "find (encloses cursorLine) (fencePairs lines) = None"
    by (simp add: find_None_iff)
  then show "getCodeBlockAtCursor editor = None"
    using assms by (simp add: getCodeBlockAtCursor_char)
next
  assume a: "odd (length (fenceIndices lines)) \<and> int (last (fenceIndices lines)) \<le> cursorLine"
  then have "\<forall>p\<in>set (fencePairs lines). snd p < last (fenceIndices lines)"
    unfolding fencePairs_def by (intro pairUp_unterminated fenceIndices_sorted) simp
  with a have "\<forall>p\<in>set (fencePairs lines). \<not> encloses cursorLine p"
    by (fastforce simp: encloses_def)
  then have "find (encloses cursorLine) (fencePairs lines) = None"
    by (simp add: find_None_iff)
  then show "getCodeBlockAtCursor editor = None"
    using assms by (simp add: getCodeBlockAtCursor_char)
qed

theorem getCodeBlockAtCursor_containment_witness:
  "((1, 5) \<in> set (fencePairs (split (join scenarioE))) \<and> int 1 \<le> 2 \<and> 2 \<le> int 5)
   \<and> (\<exists>b. getCodeBlockAtCursor \<lparr>getCursor = \<lparr>line = 2, ch = 0\<rparr>, getValue = join scenarioE\<rparr> = Some b
          \<and> line (fromPos b) = 1 \<and> line (toPos b) = 5)
   \<and> fencePairs (split (join scenarioE)) = [(1, 5)] \<and> \<not> encloses 6 (1, 5)
   \<and> getCodeBlockAtCursor \<lparr>getCursor = \<lparr>line = 6, ch = 0\<rparr>, getValue = join scenarioE\<rparr> = None
   \<and> odd (length (fenceIndices (split (lit ''```'' @ [NL] @ lit ''x''))))
   \<and> int (last (fenceIndices (split (lit ''```'' @ [NL] @ lit ''x'')))) \<le> 1
   \<and> getCodeBlockAtCursor \<lparr>getCursor = \<lparr>line = 1, ch = 0\<rparr>,
                            getValue = lit ''```'' @ [NL] @ lit ''x''\<rparr> = None"
proof -
  let ?inside = "\<lparr>getCursor = \<lparr>line = 2, ch = 0\<rparr>, getValue = join scenarioE\<rparr>"
  let ?after = "\<lparr>getCursor = \<lparr>line = 6, ch = 0\<rparr>, getValue = join scenarioE\<rparr>"
  let ?open = "\<lparr>getCursor = \<lparr>line = 1, ch = 0\<rparr>, getValue = lit ''```'' @ [NL] @ lit ''x''\<rparr>"
  have h1: "(1, 5) \<in> set (fencePairs (split (join scenarioE))) \<and> int 1 \<le> 2 \<and> 2 \<le> int 5"
    by code_simp
  have h2: "fencePairs (split (join scenarioE)) = [(1, 5)] \<and> \<not> encloses 6 (1, 5)"
    by code_simp
  then have h2': "\<forall>p\<in>set (fencePairs (split (join scenarioE))). \<not> encloses 6 p"
    by simp
  have h3: "odd (length (fenceIndices (split (lit ''```'' @ [NL] @ lit ''x''))))
            \<and> int (last (fenceIndices (split (lit ''```'' @ [NL] @ lit ''x'')))) \<le> 1"
    by code_simp
  from getCodeBlockAtCursor_containment [of "split (join scenarioE)" ?inside 2 1 5] h1
  have c1: "\<exists>b. getCodeBlockAtCursor ?inside = Some b \<and> line (fromPos b) = 1 \<and> line (toPos b) = 5"
    by auto
  from getCodeBlockAtCursor_containment [of "split (join scenarioE)" ?after 6] h2'
  have c2: "getCodeBlockAtCursor ?after = None"
    by simp
  from getCodeBlockAtCursor_containment [of "split (lit ''```'' @ [NL] @ lit ''x'')" ?open 1] h3
  have c3: "getCodeBlockAtCursor ?open = None"
    by simp
  from h1 h2 h3 c1 c2 c3 show ?thesis by blast
qed

text \<open>
  C10. A span that \<open>getCodeBlockAtCursor\<close> returns is well formed: its first line
  is strictly above its last line, both are lines of the document that start with
  three backticks once leading whitespace is stripped, it starts at character 0, it
  ends at the length of its last line, and its content is the lines from the first
  to the last one, both included, joined by line feeds.
\<close>

theorem getCodeBlockAtCursor_wellformed:
  assumes "getCodeBlockAtCursor editor = Some b" and "lines = split (getValue editor)"
  shows "line (fromPos b) < line (toPos b)
         \<and> 0 \<le> line (fromPos b) \<and> line (toPos b) < int (length lines)
         \<and> startsWith (trimStart (lines ! nat (line (fromPos b)))) (lit ''```'')
         \<and> startsWith (trimStart (lines ! nat (line (toPos b)))) (lit ''```'')
         \<and> ch (fromPos b) = 0
         \<and> ch (toPos b) = int (length (lines ! nat (line (toPos b))))
         \<and> content b = join (map ((!) lines) [nat (line (fromPos b))..<Suc (nat (line (toPos b)))])"
proof -
  from assms obtain p where f: "find (encloses (line (getCursor editor))) (fencePairs lines) = Some p"
    and b: "b = blockSpan lines p"
    by (auto simp: getCodeBlockAtCursor_char)
  from f have "p \<in> set (fencePairs lines)"
    by (auto simp: find_Some_iff)
  with pairUp_ordered [OF fenceIndices_sorted, of lines]
  have "fst p < snd p" and "fst p \<in> set (fenceIndices lines)" and "snd p \<in> set (fenceIndices lines)"
    by (auto simp: fencePairs_def)
  then have "fst p < snd p" and "snd p < length lines"
    and "isFenceLine (lines ! fst p)" and "isFenceLine (lines ! snd p)"
    by (simp_all add: fenceIndices_member)
  with b show ?thesis
    by (simp add: blockSpan_def isFenceLine_def)
qed

theorem getCodeBlockAtCursor_wellformed_witness:
  "getCodeBlockAtCursor \<lparr>getCursor = \<lparr>line = 2, ch = 0\<rparr>, getValue = join scenarioE\<rparr>
     = Some \<lparr>fromPos = \<lparr>line = 1, ch = 0\<rparr>, toPos = \<lparr>line = 5, ch = 3\<rparr>,
             content = join (sliceArray scenarioE 1 6)\<rparr>
   \<and> (1::int) < 5 \<and> 5 < int (length (split (join scenarioE)))
   \<and> startsWith (trimStart (split (join scenarioE) ! nat 1)) (lit ''```'')
   \<and> startsWith (trimStart (split (join scenarioE) ! nat 5)) (lit ''```'')
   \<and> (3::int) = int (length (split (join scenarioE) ! nat 5))
   \<and> join (sliceArray scenarioE 1 6) = join (map ((!) (split (join scenarioE))) [nat 1..<Suc (nat 5)])"
proof -
  let ?ed = "\<lparr>getCursor = \<lparr>line = 2, ch = 0\<rparr>, getValue = join scenarioE\<rparr>"
  let ?b = "\<lparr>fromPos = \<lparr>line = 1, ch = 0\<rparr>, toPos = \<lparr>line = 5, ch = 3\<rparr>,
             content = join (sliceArray scenarioE 1 6)\<rparr>"
  have h: "getCodeBlockAtCursor ?ed = Some ?b"
    by code_simp
  from getCodeBlockAtCursor_wellformed [OF h, of "split (join scenarioE)"] h
  show ?thesis by simp
qed

end
